theory Spec2Isabelle
  imports Complex_Main
begin

section \<open>Exceptions and characters\<close>

text \<open>
  The exceptions of \<^verbatim>\<open>generate_dataset_script.py\<close> that the model
  tracks. Every one of them is an instance of Python's \<^verbatim>\<open>Exception\<close>
  class. \<open>StageError\<close> stands for whatever exception a stage of the image pipeline
  raises (a decode error, a malformed image, an arithmetic error).
\<close>

datatype exn =
    ValueError
  | OverflowError
  | IndexError
  | FileExistsError
  | FileNotFoundError
  | NotADirectoryError
  | StageError string

text \<open>
  A Python \<^verbatim>\<open>str\<close> is modelled as a \<^typ>\<open>string\<close> whose characters are the
  code points below 256. In that range the decimal digits are the ten ASCII digits.
\<close>

definition is_digit :: "char \<Rightarrow> bool" where
  "is_digit c = (48 \<le> (of_char c :: nat) \<and> (of_char c :: nat) \<le> 57)"

definition digit_val :: "char \<Rightarrow> nat" where
  "digit_val c = of_char c - 48"

definition digit_char :: "nat \<Rightarrow> char" where
  "digit_char n = char_of (48 + n)"

text \<open>\<^verbatim>\<open>str(n)\<close> for a natural number, and \<^verbatim>\<open>s.zfill(w)\<close> on a digit string.\<close>

fun decimal :: "nat \<Rightarrow> string" where
  "decimal n = (if n < 10 then [digit_char n] else decimal (n div 10) @ [digit_char (n mod 10)])"

declare decimal.simps [simp del]

definition zfill :: "nat \<Rightarrow> string \<Rightarrow> string" where
  "zfill w s = replicate (w - length s) (CHR ''0'') @ s"

text \<open>
  \<^verbatim>\<open>str.lower\<close> on code points below 256: the ASCII capitals and the Latin-1
  capitals (all of \<open>0xC0\<close> to \<open>0xDE\<close> but the multiplication sign \<open>0xD7\<close>) move up by 32.
\<close>

definition lower_char :: "char \<Rightarrow> char" where
  "lower_char c =
     (let n = (of_char c :: nat)
      in if (65 \<le> n \<and> n \<le> 90) \<or> (192 \<le> n \<and> n \<le> 222 \<and> n \<noteq> 215) then char_of (n + 32) else c)"

definition lower :: "string \<Rightarrow> string" where
  "lower s = map lower_char s"

definition endswith :: "string \<Rightarrow> string \<Rightarrow> bool" where
  "endswith s suffix = (length suffix \<le> length s \<and> drop (length s - length suffix) s = suffix)"

section \<open>Calendar dates and datetimes\<close>

text \<open>
  \<^verbatim>\<open>datetime.date\<close> and \<^verbatim>\<open>datetime.datetime\<close>. The only datetimes of the
  program come from \<^verbatim>\<open>strptime\<close> with the format \<^verbatim>\<open>%Y%m%dT%H%M\<close> and from
  adding whole minutes to them, so seconds and microseconds are always zero and are
  left out. Python keeps every date within 0001-01-01 .. 9999-12-31.
\<close>

record date =
  year :: nat
  month :: nat
  day :: nat

record datetime = date +
  hour :: nat
  minute :: nat

definition date_of :: "datetime \<Rightarrow> date" where
  "date_of dt = \<lparr>year = year dt, month = month dt, day = day dt\<rparr>"

definition is_leap :: "nat \<Rightarrow> bool" where
  "is_leap y = (y mod 4 = 0 \<and> (y mod 100 \<noteq> 0 \<or> y mod 400 = 0))"

definition days_in_month :: "nat \<Rightarrow> nat \<Rightarrow> nat" where
  "days_in_month y m =
     (if m = 2 then (if is_leap y then 29 else 28)
      else if m = 4 \<or> m = 6 \<or> m = 9 \<or> m = 11 then 30
      else if 1 \<le> m \<and> m \<le> 12 then 31
      else 0)"

definition MAXYEAR :: nat where
  "MAXYEAR = 9999"

definition valid_date :: "'a date_scheme \<Rightarrow> bool" where
  "valid_date d =
     (1 \<le> year d \<and> year d \<le> MAXYEAR \<and> 1 \<le> month d \<and> month d \<le> 12 \<and>
      1 \<le> day d \<and> day d \<le> days_in_month (year d) (month d))"

definition valid_datetime :: "datetime \<Rightarrow> bool" where
  "valid_datetime dt = (valid_date dt \<and> hour dt \<le> 23 \<and> minute dt \<le> 59)"

text \<open>Dates compare as the triples (year, month, day) do.\<close>

definition date_le :: "date \<Rightarrow> date \<Rightarrow> bool" where
  "date_le a b =
     (year a < year b \<or>
      (year a = year b \<and> (month a < month b \<or> (month a = month b \<and> day a \<le> day b))))"

definition date_max :: date where
  "date_max = \<lparr>year = MAXYEAR, month = 12, day = 31\<rparr>"

text \<open>
  \<^verbatim>\<open>d + datetime.timedelta(days=1)\<close>: the next calendar day, and
  \<^verbatim>\<open>OverflowError\<close> ("date value out of range") past 9999-12-31.
\<close>

definition date_add_day :: "date \<Rightarrow> exn + date" where
  "date_add_day d =
     (if day d < days_in_month (year d) (month d) then Inr (d\<lparr>day := day d + 1\<rparr>)
      else if month d < 12 then Inr (d\<lparr>month := month d + 1, day := 1\<rparr>)
      else if year d < MAXYEAR then Inr \<lparr>year = year d + 1, month = 1, day = 1\<rparr>
      else Inl OverflowError)"

fun date_add_days :: "date \<Rightarrow> nat \<Rightarrow> exn + date" where
  "date_add_days d 0 = Inr d"
| "date_add_days d (Suc n) =
     (case date_add_day d of Inl e \<Rightarrow> Inl e | Inr d' \<Rightarrow> date_add_days d' n)"

text \<open>
  \<^verbatim>\<open>dt + datetime.timedelta(minutes=k)\<close> for \<open>k \<ge> 0\<close>: the minutes carry into
  the hours and the hours into the date.
\<close>

definition datetime_add_minutes :: "datetime \<Rightarrow> nat \<Rightarrow> exn + datetime" where
  "datetime_add_minutes dt k =
     (let total = hour dt * 60 + minute dt + k
      in case date_add_days (date_of dt) (total div 1440) of
           Inl e \<Rightarrow> Inl e
         | Inr d \<Rightarrow> Inr \<lparr>year = year d, month = month d, day = day d,
                        hour = (total mod 1440) div 60, minute = total mod 60\<rparr>)"

section \<open>DateRange Expander\<close>

text \<open>
  Lines 78 to 84 of \<^verbatim>\<open>main\<close>:
  \<^verbatim>\<open>
  dates = []
  cur = start_d
  delta = datetime.timedelta(days=1)
  while cur <= end_d:
      dates.append(cur)
      cur += delta
  \<close>
  The loop state is \<open>cur\<close> and \<open>dates\<close>. Every pass moves \<open>cur\<close> forward in
  the bounded calendar or raises, which is why the loop ends.
\<close>

function date_loop :: "date \<Rightarrow> date \<Rightarrow> date list \<Rightarrow> exn + date list" where
  "date_loop cur end_d dates =
     (if date_le cur end_d then
        (case date_add_day cur of
           Inl e \<Rightarrow> Inl e
         | Inr cur' \<Rightarrow> date_loop cur' end_d (dates @ [cur]))
      else Inr dates)"
  by pat_completeness auto
termination
  by (relation "measures [\<lambda>(cur, end_d, dates). MAXYEAR - year cur,
                          \<lambda>(cur, end_d, dates). 12 - month cur,
                          \<lambda>(cur, end_d, dates). 31 - day cur]")
     (auto simp: date_add_day_def days_in_month_def split: if_splits)

declare date_loop.simps [simp del]

definition date_range :: "date \<Rightarrow> date \<Rightarrow> exn + date list" where
  "date_range start_d end_d = date_loop start_d end_d []"

section \<open>Timestamp Parser\<close>

text \<open>
  \<^verbatim>\<open>int(s)\<close> on a string, base 10: white space is stripped at both ends, one sign
  may follow, then come digits, where single underscores may stand between two digits.
  Anything else is a \<^verbatim>\<open>ValueError\<close>. The white space of \<^verbatim>\<open>int\<close> below code
  point 256 is tab, line feed, vertical tab, form feed, carriage return, space,
  \<open>0x85\<close> and \<open>0xA0\<close>.
\<close>

definition int_space :: "char \<Rightarrow> bool" where
  "int_space c =
     (let n = (of_char c :: nat) in (9 \<le> n \<and> n \<le> 13) \<or> n = 32 \<or> n = 133 \<or> n = 160)"

fun scan_digits :: "bool \<Rightarrow> string \<Rightarrow> nat \<Rightarrow> (nat \<times> string) option" where
  "scan_digits prev_us [] acc = (if prev_us then None else Some (acc, []))"
| "scan_digits prev_us (c # cs) acc =
     (if is_digit c then scan_digits False cs (10 * acc + digit_val c)
      else if c = CHR ''_'' then (if prev_us then None else scan_digits True cs acc)
      else if prev_us then None
      else Some (acc, c # cs))"

definition py_int :: "string \<Rightarrow> exn + int" where
  "py_int s =
     (let s1 = dropWhile int_space s;
          neg = (s1 \<noteq> [] \<and> hd s1 = CHR ''-'');
          s2 = (if s1 \<noteq> [] \<and> (hd s1 = CHR ''-'' \<or> hd s1 = CHR ''+'') then tl s1 else s1)
      in if s2 = [] \<or> \<not> is_digit (hd s2) then Inl ValueError
         else (case scan_digits False s2 0 of
                 None \<Rightarrow> Inl ValueError
               | Some (n, rest) \<Rightarrow>
                   if dropWhile int_space rest = [] then Inr (if neg then - int n else int n)
                   else Inl ValueError))"

text \<open>
  \<^verbatim>\<open>
  def represents_int(s):
      try:
          int(s)
          return True
      except ValueError:
          return False
  \<close>
\<close>

definition represents_int :: "string \<Rightarrow> exn + bool" where
  "represents_int s =
     (case py_int s of
        Inr v \<Rightarrow> Inr True
      | Inl e \<Rightarrow> if e = ValueError then Inr False else Inl e)"

text \<open>
  \<^verbatim>\<open>datetime.datetime.strptime(s, fmt)\<close>. The library turns the format into a
  regular expression, one named group per directive, compiled to ignore case:
  \<^verbatim>\<open>
  'd': r"(?P<d>3[0-1]|[1-2]\d|0[1-9]|[1-9]| [1-9])"
  'H': r"(?P<H>2[0-3]|[0-1]\d|\d)"
  'm': r"(?P<m>1[0-2]|0[1-9]|[1-9])"
  'M': r"(?P<M>[0-5]\d|\d)"
  'Y': r"(?P<Y>\d\d\d\d)"
  \<close>
  It takes the first match the backtracking matcher finds at the start of the string,
  raises \<^verbatim>\<open>ValueError\<close> when there is none or when the match stops before the end
  of the string, reads the groups with \<^verbatim>\<open>int\<close>, and builds the date, which raises
  \<^verbatim>\<open>ValueError\<close> for year 0 and for a day the month does not have.
\<close>

datatype cclass = Digit | Range char char | Exactly char

fun cmatch :: "cclass \<Rightarrow> char \<Rightarrow> bool" where
  "cmatch Digit c = is_digit c"
| "cmatch (Range lo hi) c = ((of_char lo :: nat) \<le> of_char c \<and> (of_char c :: nat) \<le> of_char hi)"
| "cmatch (Exactly x) c = (lower_char c = lower_char x)"

type_synonym alternative = "cclass list"

datatype item = Group char "alternative list" | Lit char

fun directive :: "char \<Rightarrow> alternative list" where
  "directive c =
     (if c = CHR ''d'' then
        [[Exactly (CHR ''3''), Range (CHR ''0'') (CHR ''1'')],
         [Range (CHR ''1'') (CHR ''2''), Digit],
         [Exactly (CHR ''0''), Range (CHR ''1'') (CHR ''9'')],
         [Range (CHR ''1'') (CHR ''9'')],
         [Exactly (CHR '' ''), Range (CHR ''1'') (CHR ''9'')]]
      else if c = CHR ''H'' then
        [[Exactly (CHR ''2''), Range (CHR ''0'') (CHR ''3'')],
         [Range (CHR ''0'') (CHR ''1''), Digit],
         [Digit]]
      else if c = CHR ''m'' then
        [[Exactly (CHR ''1''), Range (CHR ''0'') (CHR ''2'')],
         [Exactly (CHR ''0''), Range (CHR ''1'') (CHR ''9'')],
         [Range (CHR ''1'') (CHR ''9'')]]
      else if c = CHR ''M'' then
        [[Range (CHR ''0'') (CHR ''5''), Digit],
         [Digit]]
      else if c = CHR ''Y'' then
        [[Digit, Digit, Digit, Digit]]
      else [])"

text \<open>The format of the program has directives and plain letters only.\<close>

fun pattern :: "string \<Rightarrow> item list" where
  "pattern [] = []"
| "pattern [c] = [Lit c]"
| "pattern (c # d # rest) =
     (if c = CHR ''%'' then Group d (directive d) # pattern rest else Lit c # pattern (d # rest))"

fun match_alternative :: "alternative \<Rightarrow> string \<Rightarrow> (string \<times> string) option" where
  "match_alternative [] s = Some ([], s)"
| "match_alternative (k # ks) [] = None"
| "match_alternative (k # ks) (c # cs) =
     (if cmatch k c then
        (case match_alternative ks cs of None \<Rightarrow> None | Some (m, r) \<Rightarrow> Some (c # m, r))
      else None)"

definition match_group :: "alternative list \<Rightarrow> string \<Rightarrow> (string \<times> string) list" where
  "match_group alts s = List.map_filter (\<lambda>a. match_alternative a s) alts"

text \<open>
  All the matches of the pattern at the start of the string, in the order in which
  the backtracking matcher reaches them: the groups found and the text left over.
\<close>

fun re_match :: "item list \<Rightarrow> string \<Rightarrow> ((char \<times> string) list \<times> string) list" where
  "re_match [] s = [([], s)]"
| "re_match (Lit c # items) s =
     (case s of [] \<Rightarrow> [] | x # xs \<Rightarrow> if cmatch (Exactly c) x then re_match items xs else [])"
| "re_match (Group g alts # items) s =
     concat (map (\<lambda>(m, r). map (\<lambda>(found, rest). ((g, m) # found, rest)) (re_match items r))
                 (match_group alts s))"

definition group_value :: "(char \<times> string) list \<Rightarrow> char \<Rightarrow> int \<Rightarrow> exn + int" where
  "group_value found g dflt = (case map_of found g of None \<Rightarrow> Inr dflt | Some txt \<Rightarrow> py_int txt)"

definition strptime :: "string \<Rightarrow> string \<Rightarrow> exn + datetime" where
  "strptime data_string format =
     (case re_match (pattern format) data_string of
        [] \<Rightarrow> Inl ValueError
      | (found, rest) # others \<Rightarrow>
          if rest \<noteq> [] then Inl ValueError
          else (case (group_value found (CHR ''Y'') 1900, group_value found (CHR ''m'') 1,
                      group_value found (CHR ''d'') 1, group_value found (CHR ''H'') 0,
                      group_value found (CHR ''M'') 0) of
                  (Inr y, Inr m, Inr d, Inr h, Inr mi) \<Rightarrow>
                    if y < 1 \<or> d > int (days_in_month (nat y) (nat m)) then Inl ValueError
                    else Inr \<lparr>year = nat y, month = nat m, day = nat d, hour = nat h, minute = nat mi\<rparr>
                | _ \<Rightarrow> Inl ValueError))"

text \<open>
  \<^verbatim>\<open>
  def _parse_meteoblue_datetime(cell):
      if not cell or len(cell) < 13:
          return None
      date_part = cell[:8]
      if not represents_int(date_part):
          return None
      try:
          return datetime.datetime.strptime(cell[:13], "%Y%m%dT%H%M")
      except ValueError:
          return None
  \<close>
\<close>

definition parse_meteoblue_datetime :: "string \<Rightarrow> exn + datetime option" where
  "parse_meteoblue_datetime cell =
     (if cell = [] \<or> length cell < 13 then Inr None
      else let date_part = take 8 cell
           in (case represents_int date_part of
                 Inl e \<Rightarrow> Inl e
               | Inr is_int \<Rightarrow>
                   if \<not> is_int then Inr None
                   else (case strptime (take 13 cell) ''%Y%m%dT%H%M'' of
                           Inr dt \<Rightarrow> Inr (Some dt)
                         | Inl e \<Rightarrow> if e = ValueError then Inr None else Inl e)))"

section \<open>Artifact Locator\<close>

text \<open>
  \<^verbatim>\<open>dt.strftime(format)\<close>, which is also what the format specification of an f-string
  calls. The directives \<^verbatim>\<open>%m %d %H %M\<close> are two digits, zero-filled. CPython hands
  \<^verbatim>\<open>%Y\<close> to the C library: some libraries zero-fill the year to four digits, and
  glibc prints it as it is (CPython zero-fills by itself from 3.13 on). The flag
  \<open>zero_filled\<close> says which of the two the platform does.
\<close>

definition format_directive :: "bool \<Rightarrow> datetime \<Rightarrow> char \<Rightarrow> string" where
  "format_directive zero_filled dt c =
     (if c = CHR ''Y'' then (if zero_filled then zfill 4 (decimal (year dt)) else decimal (year dt))
      else if c = CHR ''m'' then zfill 2 (decimal (month dt))
      else if c = CHR ''d'' then zfill 2 (decimal (day dt))
      else if c = CHR ''H'' then zfill 2 (decimal (hour dt))
      else if c = CHR ''M'' then zfill 2 (decimal (minute dt))
      else if c = CHR ''%'' then ''%''
      else [CHR ''%'', c])"

fun strftime :: "bool \<Rightarrow> datetime \<Rightarrow> string \<Rightarrow> string" where
  "strftime zero_filled dt [] = []"
| "strftime zero_filled dt [c] = [c]"
| "strftime zero_filled dt (c # d # rest) =
     (if c = CHR ''%'' then format_directive zero_filled dt d @ strftime zero_filled dt rest
      else c # strftime zero_filled dt (d # rest))"

text \<open>
  \<^verbatim>\<open>
  def _sky_image_filename(dt):
      return f"{dt:%Y-%m-%d-%H-%M}-0.jpg"
  \<close>
\<close>

definition sky_image_filename :: "bool \<Rightarrow> datetime \<Rightarrow> string" where
  "sky_image_filename zero_filled dt = strftime zero_filled dt ''%Y-%m-%d-%H-%M'' @ ''-0.jpg''"

text \<open>\<^verbatim>\<open>d.isoformat()\<close> is \<^verbatim>\<open>"%04d-%02d-%02d" % (year, month, day)\<close> on every platform.\<close>

definition isoformat :: "date \<Rightarrow> string" where
  "isoformat d =
     zfill 4 (decimal (year d)) @ ''-'' @ zfill 2 (decimal (month d)) @ ''-'' @ zfill 2 (decimal (day d))"

section \<open>Feature Computer\<close>

text \<open>
  A cover value is a finite float (the data model of the specification puts it in
  [0, 100] or a range of the algorithm's own). A finite float is a sign and a rational
  magnitude; the sign is kept apart because \<^verbatim>\<open>-0.0\<close> exists.

  \<^verbatim>\<open>f"{x:.6f}"\<close> rounds the exact value to six decimals, ties to the even
  neighbour, and prints the sign, the integer part, a point and six digits.
\<close>

datatype pyfloat = Float bool rat

definition round_half_even :: "rat \<Rightarrow> int" where
  "round_half_even x =
     (let f = \<lfloor>x\<rfloor>; r = x - of_int f
      in if r < 1 / 2 then f else if 1 / 2 < r then f + 1 else if even f then f else f + 1)"

fun format_6f :: "pyfloat \<Rightarrow> string" where
  "format_6f (Float negative magnitude) =
     (let n = nat (round_half_even (\<bar>magnitude\<bar> * 1000000))
      in (if negative then ''-'' else '''') @ decimal (n div 1000000) @ ''.'' @
         zfill 6 (decimal (n mod 1000000)))"

text \<open>
  What the program does that can be seen from outside, in the order in which it does
  it: which of its own helpers it calls, which stage of the image pipeline it calls,
  which rows it writes, and the call of the acquisition collaborator.
\<close>

datatype event =
    Parsed string
  | Located datetime
  | Computed string
  | Load_and_trim string
  | Rb_ratio
  | Cloud_cover
  | Wrote "string list"
  | Downloaded string string

text \<open>
  What the program takes from outside: the platform's \<^verbatim>\<open>strftime\<close>, which paths
  exist, the three stages of \<^verbatim>\<open>cloud_cover\<close> (each returns or raises), and
  \<^verbatim>\<open>float\<close> on what the last stage returns.
\<close>

record ('i, 'r, 'c) env =
  zero_filled_year :: bool
  path_exists :: "string \<Rightarrow> bool"
  load_and_trim :: "string \<Rightarrow> exn + 'i"
  process_image_rb_ratio :: "'i \<Rightarrow> exn + 'r"
  calculate_cloud_cover :: "'r \<Rightarrow> exn + 'c"
  to_float :: "'c \<Rightarrow> exn + pyfloat"

text \<open>
  \<^verbatim>\<open>
  def _cloud_cover_from_file(path):
      if not os.path.exists(path):
          return None
      try:
          trimmed = load_and_trim(path)
          rb = process_image_rb_ratio(trimmed)
          return float(calculate_cloud_cover(rb))
      except Exception:
          return None
  \<close>
  The result is the events and the returned value.
\<close>

definition cloud_cover_from_file :: "('i, 'r, 'c) env \<Rightarrow> string \<Rightarrow> event list \<times> pyfloat option" where
  "cloud_cover_from_file env path =
     (if \<not> path_exists env path then ([], None)
      else (case load_and_trim env path of
              Inl e \<Rightarrow> ([Load_and_trim path], None)
            | Inr trimmed \<Rightarrow>
                (case process_image_rb_ratio env trimmed of
                   Inl e \<Rightarrow> ([Load_and_trim path, Rb_ratio], None)
                 | Inr rb \<Rightarrow>
                     (case calculate_cloud_cover env rb of
                        Inl e \<Rightarrow> ([Load_and_trim path, Rb_ratio, Cloud_cover], None)
                      | Inr v \<Rightarrow>
                          (case to_float env v of
                             Inl e \<Rightarrow> ([Load_and_trim path, Rb_ratio, Cloud_cover], None)
                           | Inr x \<Rightarrow> ([Load_and_trim path, Rb_ratio, Cloud_cover], Some x))))))"

section \<open>Acquisition Trigger\<close>

text \<open>
  What is at the path \<^verbatim>\<open>SKY_IMAGE_DIR\<close>: nothing, something that is not a
  directory, or a directory with its entries.
\<close>

datatype node = Missing | Not_a_directory | Directory "string list"

definition SKY_IMAGE_DIR :: string where
  "SKY_IMAGE_DIR = ''sky_camera_images''"

text \<open>\<^verbatim>\<open>os.makedirs(path, exist_ok=True)\<close> and \<^verbatim>\<open>os.listdir(path)\<close>.\<close>

fun makedirs_exist_ok :: "node \<Rightarrow> exn + node" where
  "makedirs_exist_ok Missing = Inr (Directory [])"
| "makedirs_exist_ok (Directory names) = Inr (Directory names)"
| "makedirs_exist_ok Not_a_directory = Inl FileExistsError"

fun listdir :: "node \<Rightarrow> exn + string list" where
  "listdir Missing = Inl FileNotFoundError"
| "listdir Not_a_directory = Inl NotADirectoryError"
| "listdir (Directory names) = Inr names"

text \<open>
  \<^verbatim>\<open>
  def _ensure_images_downloaded(start_date, end_date):
      os.makedirs(SKY_IMAGE_DIR, exist_ok=True)
      try:
          has_any = any(name.lower().endswith(".jpg") for name in os.listdir(SKY_IMAGE_DIR))
      except FileNotFoundError:
          has_any = False
      if has_any:
          return
      download_sky_camera_images(start_date.isoformat(), end_date.isoformat())
  \<close>
  The collaborator \<open>download\<close> does to the directory what it does, or raises. The
  result is the directory afterwards and the events.
\<close>

definition ensure_images_downloaded ::
  "(string \<Rightarrow> string \<Rightarrow> node \<Rightarrow> exn + node) \<Rightarrow> date \<Rightarrow> date \<Rightarrow> node \<Rightarrow> exn + node \<times> event list" where
  "ensure_images_downloaded download start_date end_date fs =
     (case makedirs_exist_ok fs of
        Inl e \<Rightarrow> Inl e
      | Inr fs1 \<Rightarrow>
          (case (case listdir fs1 of
                   Inr names \<Rightarrow> Inr (list_ex (\<lambda>name. endswith (lower name) ''.jpg'') names)
                 | Inl e \<Rightarrow> if e = FileNotFoundError then Inr False else Inl e) of
             Inl e \<Rightarrow> Inl e
           | Inr has_any \<Rightarrow>
               if has_any then Inr (fs1, [])
               else (case download (isoformat start_date) (isoformat end_date) fs1 of
                       Inl e \<Rightarrow> Inl e
                     | Inr fs2 \<Rightarrow>
                         Inr (fs2, [Downloaded (isoformat start_date) (isoformat end_date)]))))"

section \<open>Record Merger\<close>

text \<open>\<^verbatim>\<open>os.path.join(a, b)\<close> with the separator of POSIX.\<close>

definition os_path_join :: "string \<Rightarrow> string \<Rightarrow> string" where
  "os_path_join a b =
     (if b \<noteq> [] \<and> hd b = CHR ''/'' then b
      else if a = [] \<or> last a = CHR ''/'' then a @ b
      else a @ ''/'' @ b)"

text \<open>\<^verbatim>\<open>row[0]\<close> raises \<^verbatim>\<open>IndexError\<close> on a row without cells.\<close>

fun first_cell :: "string list \<Rightarrow> exn + string" where
  "first_cell [] = Inl IndexError"
| "first_cell (cell # cells) = Inr cell"

definition metadata_labels :: "string list" where
  "metadata_labels = [''variable'', ''unit'', ''level'']"

definition cover_labels :: "string list" where
  "cover_labels = [''cloud_cover_t'', ''cloud_cover_t+5m'', ''cloud_cover_t+10m'']"

definition times :: "string list" where
  "times = [''0900'', ''1000'', ''1100'', ''1200'', ''1300'', ''1400'', ''1500'']"

text \<open>
  \<^verbatim>\<open>
  def fmt(x):
      return "" if x is None else f"{x:.6f}"
  \<close>
\<close>

fun fmt :: "pyfloat option \<Rightarrow> string" where
  "fmt None = ''''"
| "fmt (Some x) = format_6f x"

text \<open>
  \<^verbatim>\<open>
  covers = []
  for minutes in (0, 5, 10):
      dt_i = dt + datetime.timedelta(minutes=minutes)
      img_path = os.path.join(SKY_IMAGE_DIR, _sky_image_filename(dt_i))
      covers.append(_cloud_cover_from_file(img_path))
  \<close>
\<close>

fun covers_loop ::
  "('i, 'r, 'c) env \<Rightarrow> datetime \<Rightarrow> nat list \<Rightarrow> exn + event list \<times> pyfloat option list" where
  "covers_loop env dt [] = Inr ([], [])"
| "covers_loop env dt (minutes # later) =
     (case datetime_add_minutes dt minutes of
        Inl e \<Rightarrow> Inl e
      | Inr dt_i \<Rightarrow>
          (let img_path = os_path_join SKY_IMAGE_DIR (sky_image_filename (zero_filled_year env) dt_i);
               (evs, cover) = cloud_cover_from_file env img_path
           in case covers_loop env dt later of
                Inl e \<Rightarrow> Inl e
              | Inr (evs', covers) \<Rightarrow>
                  Inr (Located dt_i # Computed img_path # evs @ evs', cover # covers)))"

text \<open>
  The body of the loop over the rows of the feed, lines 103 to 132 of \<^verbatim>\<open>main\<close>:
  \<^verbatim>\<open>
  if not row:
      continue
  if row[0] in {"variable", "unit", "level"}:
      writer.writerow(row + ["cloud_cover_t", "cloud_cover_t+5m", "cloud_cover_t+10m"])
      continue
  dt = _parse_meteoblue_datetime(row[0])
  if dt is None:
      continue
  if dt.date() not in dates:
      continue
  hhmm = dt.strftime("%H%M")
  if hhmm not in times:
      continue
  ... covers ...
  writer.writerow(row + [fmt(c) for c in covers])
  \<close>
\<close>

definition merge_row :: "('i, 'r, 'c) env \<Rightarrow> date list \<Rightarrow> string list \<Rightarrow> exn + event list" where
  "merge_row env dates row =
     (if row = [] then Inr []
      else (case first_cell row of
              Inl e \<Rightarrow> Inl e
            | Inr label \<Rightarrow>
                if label \<in> set metadata_labels then Inr [Wrote (row @ cover_labels)]
                else (case first_cell row of
                        Inl e \<Rightarrow> Inl e
                      | Inr cell \<Rightarrow>
                          (case parse_meteoblue_datetime cell of
                             Inl e \<Rightarrow> Inl e
                           | Inr None \<Rightarrow> Inr [Parsed cell]
                           | Inr (Some dt) \<Rightarrow>
                               if date_of dt \<notin> set dates then Inr [Parsed cell]
                               else if strftime (zero_filled_year env) dt ''%H%M'' \<notin> set times
                               then Inr [Parsed cell]
                               else (case covers_loop env dt [0, 5, 10] of
                                       Inl e \<Rightarrow> Inl e
                                     | Inr (evs, covers) \<Rightarrow>
                                         Inr (Parsed cell # evs @ [Wrote (row @ map fmt covers)]))))))"

text \<open>\<^verbatim>\<open>for row in csv_reader: ...\<close>\<close>

fun merge_rows :: "('i, 'r, 'c) env \<Rightarrow> date list \<Rightarrow> string list list \<Rightarrow> exn + event list" where
  "merge_rows env dates [] = Inr []"
| "merge_rows env dates (row # rows) =
     (case merge_row env dates row of
        Inl e \<Rightarrow> Inl e
      | Inr evs \<Rightarrow>
          (case merge_rows env dates rows of
             Inl e \<Rightarrow> Inl e
           | Inr evs' \<Rightarrow> Inr (evs @ evs')))"

text \<open>The rows that reached the output table, in the order in which they were written.\<close>

fun written :: "event list \<Rightarrow> string list list" where
  "written [] = []"
| "written (Wrote row # evs) = row # written evs"
| "written (ev # evs) = written evs"

section \<open>The properties, in the words of the specification\<close>

text \<open>A list of dates in which each one is the day after the one before.\<close>

fun consecutive_days :: "date list \<Rightarrow> bool" where
  "consecutive_days (a # b # ds) = (date_add_day a = Inr b \<and> consecutive_days (b # ds))"
| "consecutive_days ds = True"

text \<open>
  The ordered, inclusive sequence of the dates from \<open>s\<close> to \<open>e\<close>: it starts at
  \<open>s\<close>, ends at \<open>e\<close>, goes on by one day, and holds the dates between the two and
  no other.
\<close>

definition inclusive_range :: "date \<Rightarrow> date \<Rightarrow> date list \<Rightarrow> bool" where
  "inclusive_range s e ds =
     (ds \<noteq> [] \<and> hd ds = s \<and> last ds = e \<and> consecutive_days ds \<and>
      (\<forall>d. valid_date d \<longrightarrow> (d \<in> set ds \<longleftrightarrow> date_le s d \<and> date_le d e)))"

text \<open>A number written with exactly two, and with exactly four, decimal digits.\<close>

definition two_digits :: "nat \<Rightarrow> string" where
  "two_digits n = [digit_char (n div 10), digit_char (n mod 10)]"

definition four_digits :: "nat \<Rightarrow> string" where
  "four_digits n =
     [digit_char (n div 1000), digit_char (n div 100 mod 10), digit_char (n div 10 mod 10),
      digit_char (n mod 10)]"

text \<open>
  The encoding of the feed: four-digit year, two-digit month, two-digit day, the
  letter T, two-digit hour, two-digit minute.
\<close>

definition encoding :: "datetime \<Rightarrow> string" where
  "encoding dt =
     four_digits (year dt) @ two_digits (month dt) @ two_digits (day dt) @ ''T'' @
     two_digits (hour dt) @ two_digits (minute dt)"

definition number :: "string \<Rightarrow> nat" where
  "number s = foldl (\<lambda>a c. 10 * a + digit_val c) 0 s"

definition decoded :: "string \<Rightarrow> datetime" where
  "decoded s =
     \<lparr>year = number (take 4 s), month = number (take 2 (drop 4 s)),
      day = number (take 2 (drop 6 s)), hour = number (take 2 (drop 9 s)),
      minute = number (take 2 (drop 11 s))\<rparr>"

text \<open>
  A string of at least 13 characters whose first 13 match the encoding and denote a
  valid calendar instant.
\<close>

definition matches_encoding :: "string \<Rightarrow> bool" where
  "matches_encoding s =
     (13 \<le> length s \<and> list_all is_digit (take 8 s) \<and> s ! 8 = CHR ''T'' \<and>
      list_all is_digit (take 4 (drop 9 s)) \<and> valid_datetime (decoded s))"

text \<open>The allow-set of times of day: 09:00, 10:00, 11:00, 12:00, 13:00, 14:00, 15:00.\<close>

definition allowed_time :: "datetime \<Rightarrow> bool" where
  "allowed_time dt = (minute dt = 0 \<and> 9 \<le> hour dt \<and> hour dt \<le> 15)"

text \<open>
  A decimal string with exactly six fractional digits: an optional minus sign, at
  least one digit, a point, six digits.
\<close>

definition six_fraction_digits :: "string \<Rightarrow> bool" where
  "six_fraction_digits s =
     (let body = (if s \<noteq> [] \<and> hd s = CHR ''-'' then tl s else s);
          whole = takeWhile (\<lambda>c. c \<noteq> CHR ''.'') body;
          fraction = drop (length whole + 1) body
      in whole \<noteq> [] \<and> list_all is_digit whole \<and> length whole < length body \<and>
         length fraction = 6 \<and> list_all is_digit fraction)"

text \<open>
  The timestamp of a row moved on by \<open>k\<close> minutes within its hour, and the cell
  the Record Merger appends for it: the formatted result of the Feature Computer on
  the image directory joined with the filename of the Artifact Locator.
\<close>

definition shifted :: "datetime \<Rightarrow> nat \<Rightarrow> datetime" where
  "shifted dt k = dt\<lparr>minute := minute dt + k\<rparr>"

definition cover_cell :: "('i, 'r, 'c) env \<Rightarrow> datetime \<Rightarrow> string" where
  "cover_cell env dt =
     fmt (snd (cloud_cover_from_file env
       (os_path_join SKY_IMAGE_DIR (sky_image_filename (zero_filled_year env) dt))))"

text \<open>A directory that holds at least one name ending in \<^verbatim>\<open>.jpg\<close>, in any case of letters.\<close>

fun has_image :: "node \<Rightarrow> bool" where
  "has_image (Directory names) = list_ex (\<lambda>name. endswith (lower name) ''.jpg'') names"
| "has_image fs = False"

text \<open>The events that are calls of the image pipeline.\<close>

fun pipeline_call :: "event \<Rightarrow> bool" where
  "pipeline_call (Load_and_trim path) = True"
| "pipeline_call Rb_ratio = True"
| "pipeline_call Cloud_cover = True"
| "pipeline_call ev = False"

section \<open>The DateRange Expander is correct\<close>

lemma date_loop_acc_all:
  "\<forall>acc. date_loop cur e acc = map_sum id ((@) acc) (date_loop cur e [])"
proof (rule date_loop.induct[of "\<lambda>c e' _. \<forall>acc. date_loop c e' acc = map_sum id ((@) acc) (date_loop c e' [])" cur e "[]"], intro allI)
  fix c e' dates acc
  assume IH: "\<And>x2. date_le c e' \<Longrightarrow> date_add_day c = Inr x2 \<Longrightarrow>
     \<forall>acc. date_loop x2 e' acc = map_sum id ((@) acc) (date_loop x2 e' [])"
  show "date_loop c e' acc = map_sum id ((@) acc) (date_loop c e' [])"
  proof (cases "date_le c e'")
    case False
    then show ?thesis by (simp add: date_loop.simps[of c e'])
  next
    case True
    show ?thesis
    proof (cases "date_add_day c")
      case (Inl x)
      with True show ?thesis by (simp add: date_loop.simps[of c e'])
    next
      case (Inr n)
      from IH[OF True Inr] have a: "date_loop n e' (acc @ [c]) = map_sum id ((@) (acc @ [c])) (date_loop n e' [])"
        and b: "date_loop n e' [c] = map_sum id ((@) [c]) (date_loop n e' [])"
        by blast+
      have l: "date_loop c e' acc = date_loop n e' (acc @ [c])"
        using True Inr by (simp add: date_loop.simps[of c e' acc])
      have r: "date_loop c e' [] = date_loop n e' [c]"
        using True Inr by (simp add: date_loop.simps[of c e' "[]"])
      show ?thesis unfolding l r a b by (cases "date_loop n e' []") simp_all
    qed
  qed
qed

lemma date_loop_unfold:
  "date_loop cur e [] =
     (if date_le cur e then
        (case date_add_day cur of Inl x \<Rightarrow> Inl x
         | Inr c \<Rightarrow> map_sum id ((@) [cur]) (date_loop c e []))
      else Inr [])"
proof -
  have "\<And>c. date_loop c e [cur] = map_sum id ((@) [cur]) (date_loop c e [])"
    using date_loop_acc_all by blast
  then show ?thesis
    by (simp add: date_loop.simps[of cur e "[]"] split: sum.splits)
qed

lemma date_le_refl: "date_le d d" by (simp add: date_le_def)

lemma date_le_antisym: "date_le a b \<Longrightarrow> date_le b a \<Longrightarrow> a = (b::date)"
  by (cases a, cases b) (auto simp: date_le_def)

lemma date_le_trans: "date_le a b \<Longrightarrow> date_le b c \<Longrightarrow> date_le a c"
  by (auto simp: date_le_def)

lemma date_le_total: "date_le a b \<or> date_le b a"
  by (auto simp: date_le_def)

lemma days_in_month_pos: "1 \<le> m \<Longrightarrow> m \<le> 12 \<Longrightarrow> 1 \<le> days_in_month y m"
  by (simp add: days_in_month_def)

lemma add_day_valid:
  assumes "valid_date cur" "date_add_day cur = Inr c"
  shows "valid_date c \<and> date_le cur c \<and> cur \<noteq> c"
proof -
  obtain y m dd where cur: "cur = \<lparr>year = y, month = m, day = dd\<rparr>" by (cases cur) auto
  from assms(1) have v: "1 \<le> y" "y \<le> MAXYEAR" "1 \<le> m" "m \<le> 12" "1 \<le> dd" "dd \<le> days_in_month y m"
    by (simp_all add: valid_date_def cur)
  have p1: "1 \<le> days_in_month y (m + 1)" if "m < 12" using that by (intro days_in_month_pos) auto
  have p2: "1 \<le> days_in_month (y + 1) 1" by (intro days_in_month_pos) auto
  from assms(2) show ?thesis using v p1 p2
    by (auto simp: date_add_day_def cur valid_date_def date_le_def split: if_splits)
qed

lemma add_day_next:
  assumes "valid_date cur" "valid_date d" "date_le cur d" "cur \<noteq> d"
  shows "\<exists>c. date_add_day cur = Inr c \<and> date_le c d"
proof -
  obtain y m dd where cur: "cur = \<lparr>year = y, month = m, day = dd\<rparr>" by (cases cur) auto
  obtain y' m' dd' where d: "d = \<lparr>year = y', month = m', day = dd'\<rparr>" by (cases d) auto
  from assms(1) have v: "1 \<le> y" "y \<le> MAXYEAR" "1 \<le> m" "m \<le> 12" "1 \<le> dd" "dd \<le> days_in_month y m"
    by (simp_all add: valid_date_def cur)
  from assms(2) have v': "1 \<le> y'" "y' \<le> MAXYEAR" "1 \<le> m'" "m' \<le> 12" "1 \<le> dd'" "dd' \<le> days_in_month y' m'"
    by (simp_all add: valid_date_def d)
  from assms(3) have le: "y < y' \<or> (y = y' \<and> (m < m' \<or> (m = m' \<and> dd \<le> dd')))"
    by (simp add: date_le_def cur d)
  from assms(4) have ne: "y \<noteq> y' \<or> m \<noteq> m' \<or> dd \<noteq> dd'" by (simp add: cur d)
  show ?thesis
  proof (cases "dd < days_in_month y m")
    case True
    then have "date_add_day cur = Inr \<lparr>year = y, month = m, day = dd + 1\<rparr>"
      by (simp add: date_add_day_def cur)
    moreover have "date_le \<lparr>year = y, month = m, day = dd + 1\<rparr> d"
      using le ne by (auto simp: date_le_def d)
    ultimately show ?thesis by blast
  next
    case False
    with v have eq: "dd = days_in_month y m" by simp
    show ?thesis
    proof (cases "m < 12")
      case True
      then have "date_add_day cur = Inr \<lparr>year = y, month = m + 1, day = 1\<rparr>"
        using False by (simp add: date_add_day_def cur)
      moreover have "date_le \<lparr>year = y, month = m + 1, day = 1\<rparr> d"
        using le ne v' eq by (auto simp: date_le_def d)
      ultimately show ?thesis by blast
    next
      case m12: False
      with v have m: "m = 12" by simp
      from le ne v' eq m have lt: "y < y'" by auto
      with v' have "y < MAXYEAR" by simp
      then have "date_add_day cur = Inr \<lparr>year = y + 1, month = 1, day = 1\<rparr>"
        using False m by (simp add: date_add_day_def cur)
      moreover have "date_le \<lparr>year = y + 1, month = 1, day = 1\<rparr> d"
        using lt v' by (auto simp: date_le_def d)
      ultimately show ?thesis by blast
    qed
  qed
qed


lemma add_day_ok:
  assumes "valid_date d" "d \<noteq> date_max"
  shows "\<exists>c. date_add_day d = Inr c"
proof -
  obtain y m dd where d: "d = \<lparr>year = y, month = m, day = dd\<rparr>" by (cases d) auto
  have "days_in_month y 12 = 31" by (simp add: days_in_month_def)
  with assms show ?thesis
    by (auto simp: date_add_day_def d valid_date_def date_max_def)
qed

lemma date_loop_range:
  "valid_date cur \<longrightarrow> valid_date e \<longrightarrow> date_le cur e \<longrightarrow> e \<noteq> date_max \<longrightarrow>
     (\<exists>ds. date_loop cur e [] = Inr ds \<and> inclusive_range cur e ds)"
proof (rule date_loop.induct[of "\<lambda>c e' _. valid_date c \<longrightarrow> valid_date e' \<longrightarrow> date_le c e' \<longrightarrow> e' \<noteq> date_max \<longrightarrow>
     (\<exists>ds. date_loop c e' [] = Inr ds \<and> inclusive_range c e' ds)" cur e "[]"], intro impI)
  fix c e' and dates :: "date list"
  assume IH: "\<And>x2. date_le c e' \<Longrightarrow> date_add_day c = Inr x2 \<Longrightarrow>
     valid_date x2 \<longrightarrow> valid_date e' \<longrightarrow> date_le x2 e' \<longrightarrow> e' \<noteq> date_max \<longrightarrow>
     (\<exists>ds. date_loop x2 e' [] = Inr ds \<and> inclusive_range x2 e' ds)"
  assume vc: "valid_date c" and ve: "valid_date e'" and le: "date_le c e'" and nm: "e' \<noteq> date_max"
  show "\<exists>ds. date_loop c e' [] = Inr ds \<and> inclusive_range c e' ds"
  proof (cases "c = e'")
    case True
    from add_day_ok[OF vc] nm True obtain n where n: "date_add_day c = Inr n" by blast
    from add_day_valid[OF vc n] have "date_le c n" "c \<noteq> n" by simp_all
    then have "\<not> date_le n e'" using True date_le_antisym by blast
    then have "date_loop n e' [] = Inr []" by (simp add: date_loop_unfold[of n e'])
    then have "date_loop c e' [] = Inr [c]"
      using le n by (simp add: date_loop_unfold[of c e'])
    moreover have "inclusive_range c e' [c]"
      using True date_le_antisym by (auto simp: inclusive_range_def date_le_refl)
    ultimately show ?thesis by blast
  next
    case False
    from add_day_next[OF vc ve le False] obtain n where n: "date_add_day c = Inr n" and nle: "date_le n e'"
      by blast
    from add_day_valid[OF vc n] have vn: "valid_date n" and cn: "date_le c n" and ne: "c \<noteq> n" by simp_all
    from IH[OF le n] vn ve nle nm obtain ds where ds: "date_loop n e' [] = Inr ds" and ok: "inclusive_range n e' ds"
      by blast
    have res: "date_loop c e' [] = Inr (c # ds)"
      using le n ds by (simp add: date_loop_unfold[of c e'])
    from ok obtain x xs where dsx: "ds = x # xs" and x: "x = n" by (cases ds) (auto simp: inclusive_range_def)
    have mem: "d \<in> set (c # ds) \<longleftrightarrow> date_le c d \<and> date_le d e'" if vd: "valid_date d" for d
    proof (cases "d = c")
      case True
      then show ?thesis using le by (simp add: date_le_refl)
    next
      case dc: False
      have "d \<in> set ds \<longleftrightarrow> date_le n d \<and> date_le d e'" using ok vd by (simp add: inclusive_range_def)
      moreover have "date_le n d" if "date_le c d"
        using add_day_next[OF vc vd that] dc n by auto
      moreover have "date_le c d" if "date_le n d"
        using cn that date_le_trans by blast
      ultimately show ?thesis using dc by auto
    qed
    have "inclusive_range c e' (c # ds)"
      using ok n mem unfolding inclusive_range_def dsx x by auto
    with res show ?thesis by blast
  qed
qed

lemma date_loop_empty: "\<not> date_le s e \<Longrightarrow> date_loop s e [] = Inr []"
  by (simp add: date_loop_unfold[of s e])

lemma valid_le_max: "valid_date d \<Longrightarrow> date_le d date_max"
proof -
  assume v: "valid_date d"
  obtain y m dd where d: "d = \<lparr>year = y, month = m, day = dd\<rparr>" by (cases d) auto
  have "days_in_month y m \<le> 31" by (simp add: days_in_month_def)
  with v show ?thesis by (auto simp: valid_date_def date_le_def date_max_def d)
qed

lemma valid_date_max: "valid_date date_max"
  by (simp add: valid_date_def date_max_def MAXYEAR_def days_in_month_def)

lemma date_loop_overflow:
  "valid_date s \<longrightarrow> e = date_max \<longrightarrow> date_loop s e [] = Inl OverflowError"
proof (rule date_loop.induct[of "\<lambda>c e' _. valid_date c \<longrightarrow> e' = date_max \<longrightarrow> date_loop c e' [] = Inl OverflowError" s e "[]"], intro impI)
  fix c e' and dates :: "date list"
  assume IH: "\<And>x2. date_le c e' \<Longrightarrow> date_add_day c = Inr x2 \<Longrightarrow>
     valid_date x2 \<longrightarrow> e' = date_max \<longrightarrow> date_loop x2 e' [] = Inl OverflowError"
  assume vc: "valid_date c" and e: "e' = date_max"
  have le: "date_le c e'" using valid_le_max[OF vc] e by simp
  show "date_loop c e' [] = Inl OverflowError"
  proof (cases "c = date_max")
    case True
    have "date_add_day date_max = Inl OverflowError"
      by (simp add: date_add_day_def date_max_def days_in_month_def)
    then show ?thesis using le unfolding True by (simp add: date_loop_unfold[of date_max e'])
  next
    case False
    from add_day_next[OF vc valid_date_max] le e False obtain n where n: "date_add_day c = Inr n"
      by blast
    from add_day_valid[OF vc n] have vn: "valid_date n" by simp
    from IH[OF le n] vn e have "date_loop n e' [] = Inl OverflowError" by blast
    then show ?thesis using le n by (simp add: date_loop_unfold[of c e'])
  qed
qed

lemma date_range_members:
  assumes "valid_date s" "valid_date e" "date_range s e = Inr dates" "valid_date d"
  shows "d \<in> set dates \<longleftrightarrow> date_le s d \<and> date_le d e"
proof (cases "date_le s e")
  case False
  then have "dates = []" using assms(3) by (simp add: date_range_def date_loop_empty)
  moreover have "\<not> (date_le s d \<and> date_le d e)" using False date_le_trans by blast
  ultimately show ?thesis by simp
next
  case True
  have "e \<noteq> date_max" using date_loop_overflow[of s e] assms(1,3) by (auto simp: date_range_def)
  with date_loop_range[of s e] assms(1,2) True obtain ds where "date_loop s e [] = Inr ds" "inclusive_range s e ds"
    by blast
  with assms(3,4) show ?thesis by (simp add: date_range_def inclusive_range_def)
qed




section \<open>The Artifact Locator\<close>



lemma digit_chars:
  "digit_char 0 = CHR ''0''" "digit_char 1 = CHR ''1''" "digit_char (Suc 0) = CHR ''1''"
  "digit_char 2 = CHR ''2''" "digit_char 3 = CHR ''3''" "digit_char 4 = CHR ''4''"
  "digit_char 5 = CHR ''5''" "digit_char 6 = CHR ''6''" "digit_char 7 = CHR ''7''"
  "digit_char 8 = CHR ''8''" "digit_char 9 = CHR ''9''"
  unfolding digit_char_def by code_simp+











lemma strftime_hhmm:
  "strftime z dt ''%H%M'' = format_directive z dt (CHR ''H'') @ format_directive z dt (CHR ''M'')"
  by simp





section \<open>The Feature Computer, metadata rows and empty rows\<close>



text \<open>
  C7. For every row whose first cell is \<^verbatim>\<open>variable\<close>, \<^verbatim>\<open>unit\<close> or \<^verbatim>\<open>level\<close>, all
  the Record Merger does is to write the row, its cells as they are, followed by the
  three label cells: no timestamp is parsed, no filename looked up, no feature
  computed, whatever the dates and the file system are.
\<close>

theorem merge_row_metadata:
  assumes "first_cell row = Inr label"
      and "label = ''variable'' \<or> label = ''unit'' \<or> label = ''level''"
  shows "merge_row env dates row =
           Inr [Wrote (row @ [''cloud_cover_t'', ''cloud_cover_t+5m'', ''cloud_cover_t+10m''])]"
proof -
  from assms(1) have "row \<noteq> []" by (cases row) auto
  moreover from assms(2) have "label \<in> set metadata_labels" by (auto simp: metadata_labels_def)
  ultimately show ?thesis using assms(1) by (simp add: merge_row_def cover_labels_def)
qed

theorem merge_row_metadata_witness:
  "first_cell [''variable'', ''Temperature'', ''Wind Speed''] = Inr ''variable'' \<and>
   merge_row
     \<lparr>zero_filled_year = False, path_exists = (\<lambda>p. True),
      load_and_trim = (\<lambda>p. Inr p), process_image_rb_ratio = (\<lambda>i. Inr i),
      calculate_cloud_cover = (\<lambda>r. Inr r), to_float = (\<lambda>c. Inr (Float False 42))\<rparr>
     [\<lparr>year = 2019, month = 5, day = 23\<rparr>] [''variable'', ''Temperature'', ''Wind Speed''] =
   Inr [Wrote [''variable'', ''Temperature'', ''Wind Speed'',
               ''cloud_cover_t'', ''cloud_cover_t+5m'', ''cloud_cover_t+10m'']]"
  using merge_row_metadata
     [of "[''variable'', ''Temperature'', ''Wind Speed'']" "''variable''"
         "\<lparr>zero_filled_year = False, path_exists = (\<lambda>p. True),
      load_and_trim = (\<lambda>p. Inr p), process_image_rb_ratio = (\<lambda>i. Inr i),
      calculate_cloud_cover = (\<lambda>r. Inr r), to_float = (\<lambda>c. Inr (Float False 42))\<rparr>"
         "[\<lparr>year = 2019, month = 5, day = 23\<rparr>]"]
  by simp

text \<open>
  C10. On a row without cells the Record Merger does nothing and raises nothing:
  reading the first cell of such a row would raise \<^verbatim>\<open>IndexError\<close>, and the test
  \<^verbatim>\<open>if not row\<close> comes before it. The loop goes on with the rows that follow.
\<close>

theorem merge_row_empty:
  "first_cell [] = Inl IndexError \<and> merge_row env dates [] = Inr [] \<and>
   merge_rows env dates ([] # rows) = merge_rows env dates rows"
  by (cases "merge_rows env dates rows") (simp_all add: merge_row_def)

theorem merge_row_empty_witness:
  "merge_row
     \<lparr>zero_filled_year = False, path_exists = (\<lambda>p. True),
      load_and_trim = (\<lambda>p. Inr p), process_image_rb_ratio = (\<lambda>i. Inr i),
      calculate_cloud_cover = (\<lambda>r. Inr r), to_float = (\<lambda>c. Inr (Float False 42))\<rparr>
     [\<lparr>year = 2019, month = 5, day = 23\<rparr>] [] = Inr []"
  using merge_row_empty
     [of "\<lparr>zero_filled_year = False, path_exists = (\<lambda>p. True),
      load_and_trim = (\<lambda>p. Inr p), process_image_rb_ratio = (\<lambda>i. Inr i),
      calculate_cloud_cover = (\<lambda>r. Inr r), to_float = (\<lambda>c. Inr (Float False 42))\<rparr>"
         "[\<lparr>year = 2019, month = 5, day = 23\<rparr>]" "[]"]
  by simp

section \<open>The Acquisition Trigger\<close>

lemma ensure_with_image:
  assumes "has_image fs"
  shows "ensure_images_downloaded download start_date end_date fs = Inr (fs, [])"
proof -
  from assms obtain names where fs: "fs = Directory names" by (cases fs) auto
  with assms show ?thesis by (simp add: ensure_images_downloaded_def)
qed

lemma ensure_returns:
  assumes "ensure_images_downloaded download start_date end_date fs = Inr (fs', evs)"
  shows "\<exists>names. makedirs_exist_ok fs = Inr (Directory names) \<and>
           ((fs' = Directory names \<and> evs = []) \<or>
            (\<not> has_image (Directory names) \<and>
             download (isoformat start_date) (isoformat end_date) (Directory names) = Inr fs' \<and>
             evs = [Downloaded (isoformat start_date) (isoformat end_date)]))"
  using assms
  by (cases fs) (auto simp: ensure_images_downloaded_def split: if_splits sum.splits)

text \<open>
  C8. For every date range, every acquisition collaborator and every state in which
  the image directory holds at least one name ending in \<^verbatim>\<open>.jpg\<close> (in any case of
  letters), the Acquisition Trigger returns without a call of the collaborator and
  leaves the directory as it is. So a second run, after a first run that left such a
  directory, calls the collaborator zero times. Whenever the Trigger returns,
  \<^verbatim>\<open>os.makedirs\<close> has made sure that the directory exists: the directory is there
  on return when no acquisition was made, and was there when the collaborator was
  called otherwise.
\<close>

theorem ensure_images_downloaded_idempotent:
  "(has_image fs \<longrightarrow> ensure_images_downloaded download start_date end_date fs = Inr (fs, [])) \<and>
   (ensure_images_downloaded download start_date end_date fs = Inr (fs', evs) \<and> has_image fs' \<longrightarrow>
      ensure_images_downloaded download start_date' end_date' fs' = Inr (fs', [])) \<and>
   (ensure_images_downloaded download start_date end_date fs = Inr (fs', evs) \<longrightarrow>
      (\<exists>names. makedirs_exist_ok fs = Inr (Directory names) \<and>
         ((fs' = Directory names \<and> evs = []) \<or>
          (download (isoformat start_date) (isoformat end_date) (Directory names) = Inr fs' \<and>
           evs = [Downloaded (isoformat start_date) (isoformat end_date)]))))"
  using ensure_with_image[of fs download start_date end_date]
        ensure_with_image[of fs' download start_date' end_date']
        ensure_returns[of download start_date end_date fs fs' evs]
  by blast

text \<open>
  A first run on a missing directory, with a collaborator that leaves one capture, and
  a second run on what the first run left.
\<close>

theorem ensure_images_downloaded_idempotent_witness:
  "ensure_images_downloaded (\<lambda>s e fs. Inr (Directory [''2019-05-23-09-00-0.JPG'']))
     \<lparr>year = 2019, month = 5, day = 23\<rparr> \<lparr>year = 2019, month = 5, day = 23\<rparr> Missing =
     Inr (Directory [''2019-05-23-09-00-0.JPG''], [Downloaded ''2019-05-23'' ''2019-05-23'']) \<and>
   has_image (Directory [''2019-05-23-09-00-0.JPG'']) \<and>
   ensure_images_downloaded (\<lambda>s e fs. Inr (Directory [''2019-05-23-09-00-0.JPG'']))
     \<lparr>year = 2019, month = 5, day = 23\<rparr> \<lparr>year = 2019, month = 5, day = 23\<rparr>
     (Directory [''2019-05-23-09-00-0.JPG'']) = Inr (Directory [''2019-05-23-09-00-0.JPG''], [])"
proof -
  have first: "ensure_images_downloaded (\<lambda>s e fs. Inr (Directory [''2019-05-23-09-00-0.JPG'']))
     \<lparr>year = 2019, month = 5, day = 23\<rparr> \<lparr>year = 2019, month = 5, day = 23\<rparr> Missing =
     Inr (Directory [''2019-05-23-09-00-0.JPG''], [Downloaded ''2019-05-23'' ''2019-05-23''])"
    by code_simp
  have img: "has_image (Directory [''2019-05-23-09-00-0.JPG''])"
    by code_simp
  from first img
    ensure_images_downloaded_idempotent
      [of "Directory [''2019-05-23-09-00-0.JPG'']"
          "\<lambda>s e fs. Inr (Directory [''2019-05-23-09-00-0.JPG''])"
          "\<lparr>year = 2019, month = 5, day = 23\<rparr>" "\<lparr>year = 2019, month = 5, day = 23\<rparr>"]
  show ?thesis by blast
qed

section \<open>The Timestamp Parser\<close>

lemma of_char_lt_256: "(of_char c :: nat) < 256"
  using range_nat_of_char by auto

lemma digit_char_val: "is_digit c \<Longrightarrow> digit_char (digit_val c) = c"
  by (simp add: is_digit_def digit_val_def digit_char_def)

lemma digit_val_char: "n < 10 \<Longrightarrow> digit_val (digit_char n) = n"
  by (simp add: digit_val_def digit_char_def)

lemma is_digit_char: "n < 10 \<Longrightarrow> is_digit (digit_char n)"
  by (simp add: is_digit_def digit_char_def)

lemma digit_val_lt: "is_digit c \<Longrightarrow> digit_val c < 10"
  by (auto simp: is_digit_def digit_val_def)

lemma char_eq_code: "(c = d) = ((of_char c :: nat) = of_char d)"
  by simp

lemma is_digit_lower: "is_digit c \<Longrightarrow> lower_char c = c"
  by (simp add: is_digit_def lower_char_def)

lemma lower_char_is_digit: "is_digit (lower_char c) \<Longrightarrow> lower_char c = c"
  using of_char_lt_256[of c]
  by (auto simp: is_digit_def lower_char_def Let_def split: if_splits)

lemma lower_char_space: "lower_char c = CHR '' '' \<Longrightarrow> c = CHR '' ''"
  using of_char_lt_256[of c]
  by (auto simp: lower_char_def Let_def char_eq_code[of _ "CHR '' ''"] split: if_splits)

lemma digit_not_space: "is_digit c \<Longrightarrow> \<not> int_space c"
  by (auto simp: is_digit_def int_space_def Let_def)

lemma digit_not_sign: "is_digit c \<Longrightarrow> c \<noteq> CHR ''-'' \<and> c \<noteq> CHR ''+'' \<and> c \<noteq> CHR ''_''"
  by (auto simp: is_digit_def)

lemma scan_digits_all:
  "list_all is_digit ds \<Longrightarrow> scan_digits False ds acc = Some (foldl (\<lambda>a c. 10 * a + digit_val c) acc ds, [])"
  by (induction ds arbitrary: acc) simp_all

lemma scan_digits_stop:
  "list_all is_digit ds \<Longrightarrow> \<not> is_digit x \<Longrightarrow> x \<noteq> CHR ''_'' \<Longrightarrow>
   scan_digits False (ds @ x # xs) acc = Some (foldl (\<lambda>a c. 10 * a + digit_val c) acc ds, x # xs)"
  by (induction ds arbitrary: acc) simp_all

lemma py_int_digits:
  assumes "ds \<noteq> []" "list_all is_digit ds"
  shows "py_int ds = Inr (int (number ds))"
proof -
  obtain c cs where ds: "ds = c # cs" using assms(1) by (cases ds) auto
  with assms(2) have c: "is_digit c" by simp
  have dw: "dropWhile int_space ds = ds" using c digit_not_space ds by simp
  have "scan_digits False ds 0 = Some (number ds, [])"
    using scan_digits_all[OF assms(2)] by (simp add: number_def)
  then show ?thesis
    using c digit_not_sign[OF c] unfolding py_int_def dw by (simp add: ds Let_def)
qed

lemma py_int_stop:
  assumes "ds \<noteq> []" "list_all is_digit ds" "\<not> is_digit x" "x \<noteq> CHR ''_''"
      and "dropWhile int_space (x # xs) \<noteq> []"
  shows "py_int (ds @ x # xs) = Inl ValueError"
proof -
  define s where "s = ds @ x # xs"
  obtain c cs where ds: "ds = c # cs" using assms(1) by (cases ds) auto
  with assms(2) have c: "is_digit c" by simp
  have h: "s \<noteq> []" "hd s = c" by (simp_all add: s_def ds)
  have dw: "dropWhile int_space s = s" using c digit_not_space by (simp add: s_def ds)
  have sc: "scan_digits False s 0 = Some (number ds, x # xs)"
    using scan_digits_stop[OF assms(2,3,4)] by (simp add: number_def s_def)
  show ?thesis
    using c digit_not_sign[OF c] assms(5) h sc unfolding py_int_def dw s_def[symmetric]
    by (simp add: Let_def del: dropWhile.simps)
qed

lemma py_int_error: "py_int s = Inl e \<Longrightarrow> e = ValueError"
  by (auto simp: py_int_def Let_def split: if_splits option.splits prod.splits)

lemma represents_int_total: "represents_int s = Inr (\<exists>v. py_int s = Inr v)"
proof (cases "py_int s")
  case (Inl e)
  then show ?thesis using py_int_error[OF Inl] by (simp add: represents_int_def)
next
  case (Inr v)
  then show ?thesis by (simp add: represents_int_def)
qed

lemma strptime_error: "strptime d f = Inl e \<Longrightarrow> e = ValueError"
  by (auto simp: strptime_def split: list.splits prod.splits sum.splits if_splits)

lemma parse_total: "\<exists>r. parse_meteoblue_datetime s = Inr r"
proof (cases "strptime (take 13 s) ''%Y%m%dT%H%M''")
  case (Inl e)
  with strptime_error[OF Inl] show ?thesis
    by (simp add: parse_meteoblue_datetime_def represents_int_total Let_def)
next
  case (Inr dt)
  then show ?thesis
    by (simp add: parse_meteoblue_datetime_def represents_int_total Let_def)
qed

lemma parse_eq:
  "parse_meteoblue_datetime s =
     (if length s < 13 then Inr None
      else if \<not> (\<exists>v. py_int (take 8 s) = Inr v) then Inr None
      else (case strptime (take 13 s) ''%Y%m%dT%H%M'' of Inr dt \<Rightarrow> Inr (Some dt) | Inl e \<Rightarrow> Inr None))"
proof (cases "strptime (take 13 s) ''%Y%m%dT%H%M''")
  case (Inl e)
  with strptime_error[OF Inl] show ?thesis
    by (auto simp: parse_meteoblue_datetime_def represents_int_total Let_def)
next
  case (Inr dt)
  then show ?thesis
    by (auto simp: parse_meteoblue_datetime_def represents_int_total Let_def)
qed

lemma exactly_digit_char:
  assumes "is_digit c" "n < 10"
  shows "cmatch (Exactly (digit_char n)) c = (digit_val c = n)"
proof -
  have "lower_char (digit_char n) = digit_char n"
    using assms(2) by (simp add: is_digit_lower is_digit_char)
  moreover have "(c = digit_char n) = (digit_val c = n)"
    using assms digit_char_val digit_val_char by metis
  ultimately show ?thesis using assms(1) by (simp add: is_digit_lower)
qed

lemma exactly_digit:
  assumes "is_digit c"
  shows "cmatch (Exactly (CHR ''0'')) c = (digit_val c = 0)"
    and "cmatch (Exactly (CHR ''1'')) c = (digit_val c = 1)"
    and "cmatch (Exactly (CHR ''2'')) c = (digit_val c = 2)"
    and "cmatch (Exactly (CHR ''3'')) c = (digit_val c = 3)"
  using exactly_digit_char[OF assms, of 0] exactly_digit_char[OF assms, of 1]
        exactly_digit_char[OF assms, of 2] exactly_digit_char[OF assms, of 3]
  by (simp_all add: digit_chars)

lemma exactly_space_digit: "is_digit c \<Longrightarrow> \<not> cmatch (Exactly (CHR '' '')) c"
  by (auto simp: is_digit_lower lower_char_def is_digit_def)

lemma range_digit:
  assumes "is_digit c"
  shows "cmatch (Range (CHR ''0'') (CHR ''1'')) c = (digit_val c \<le> 1)"
    and "cmatch (Range (CHR ''0'') (CHR ''2'')) c = (digit_val c \<le> 2)"
    and "cmatch (Range (CHR ''0'') (CHR ''3'')) c = (digit_val c \<le> 3)"
    and "cmatch (Range (CHR ''0'') (CHR ''5'')) c = (digit_val c \<le> 5)"
    and "cmatch (Range (CHR ''1'') (CHR ''2'')) c = (1 \<le> digit_val c \<and> digit_val c \<le> 2)"
    and "cmatch (Range (CHR ''1'') (CHR ''9'')) c = (1 \<le> digit_val c)"
  using assms by (auto simp: is_digit_def digit_val_def)

lemma cmatch_Digit: "cmatch Digit c = is_digit c"
  by simp

lemma group_Y:
  assumes "is_digit a" "is_digit b" "is_digit c" "is_digit d"
  shows "match_group (directive (CHR ''Y'')) (a # b # c # d # r) = [([a, b, c, d], r)]"
  using assms by (simp add: match_group_def)

lemma group_m:
  assumes "is_digit a" "is_digit b"
      and "1 \<le> 10 * digit_val a + digit_val b" "10 * digit_val a + digit_val b \<le> 12"
  shows "\<exists>tl_alts. match_group (directive (CHR ''m'')) (a # b # r) = ([a, b], r) # tl_alts"
  using assms digit_val_lt[of b]
  by (auto simp add: match_group_def exactly_digit range_digit exactly_space_digit simp del: cmatch.simps(2) cmatch.simps(3))

lemma group_d:
  assumes "is_digit a" "is_digit b"
      and "1 \<le> 10 * digit_val a + digit_val b" "10 * digit_val a + digit_val b \<le> 31"
  shows "\<exists>tl_alts. match_group (directive (CHR ''d'')) (a # b # r) = ([a, b], r) # tl_alts"
  using assms digit_val_lt[of b]
  by (auto simp add: match_group_def exactly_digit range_digit exactly_space_digit simp del: cmatch.simps(2) cmatch.simps(3))

lemma group_H:
  assumes "is_digit a" "is_digit b" "10 * digit_val a + digit_val b \<le> 23"
  shows "\<exists>tl_alts. match_group (directive (CHR ''H'')) (a # b # r) = ([a, b], r) # tl_alts"
  using assms digit_val_lt[of b]
  by (auto simp add: match_group_def exactly_digit range_digit exactly_space_digit simp del: cmatch.simps(2) cmatch.simps(3))

lemma group_M:
  assumes "is_digit a" "is_digit b" "10 * digit_val a + digit_val b \<le> 59"
  shows "\<exists>tl_alts. match_group (directive (CHR ''M'')) (a # b # r) = ([a, b], r) # tl_alts"
  using assms digit_val_lt[of b]
  by (auto simp add: match_group_def exactly_digit range_digit exactly_space_digit simp del: cmatch.simps(2) cmatch.simps(3))

lemma re_match_group_hd:
  assumes "match_group alts s = (m, r) # tl_alts"
      and "re_match items r = (found, rest) # others"
  shows "\<exists>others'. re_match (Group g alts # items) s = ((g, m) # found, rest) # others'"
  using assms by simp

lemma pattern_format:
  "pattern ''%Y%m%dT%H%M'' =
     [Group (CHR ''Y'') (directive (CHR ''Y'')), Group (CHR ''m'') (directive (CHR ''m'')),
      Group (CHR ''d'') (directive (CHR ''d'')), Lit (CHR ''T''),
      Group (CHR ''H'') (directive (CHR ''H'')), Group (CHR ''M'') (directive (CHR ''M''))]"
  by (simp del: directive.simps)

lemma length_13:
  assumes "13 \<le> length s"
  shows "\<exists>c0 c1 c2 c3 c4 c5 c6 c7 c8 c9 c10 c11 c12 r.
           s = c0 # c1 # c2 # c3 # c4 # c5 # c6 # c7 # c8 # c9 # c10 # c11 # c12 # r"
proof -
  define t where "t = take 13 s"
  have "length t = Suc (Suc (Suc (Suc (Suc (Suc (Suc (Suc (Suc (Suc (Suc (Suc (Suc 0))))))))))))"
    using assms by (simp add: t_def)
  then obtain c0 c1 c2 c3 c4 c5 c6 c7 c8 c9 c10 c11 c12
    where "t = [c0, c1, c2, c3, c4, c5, c6, c7, c8, c9, c10, c11, c12]"
    by (auto simp: length_Suc_conv)
  then have "s = c0 # c1 # c2 # c3 # c4 # c5 # c6 # c7 # c8 # c9 # c10 # c11 # c12 # drop 13 s"
    using append_take_drop_id[of 13 s] by (simp add: t_def)
  then show ?thesis by blast
qed

lemma number_2: "number [a, b] = 10 * digit_val a + digit_val b"
  by (simp add: number_def)

lemma number_4:
  "number [a, b, c, d] = 1000 * digit_val a + 100 * digit_val b + 10 * digit_val c + digit_val d"
  by (simp add: number_def)

lemma two_digits_number:
  assumes "is_digit a" "is_digit b"
  shows "two_digits (number [a, b]) = [a, b]"
proof -
  have "digit_val a < 10" "digit_val b < 10" using assms digit_val_lt by auto
  then have "(10 * digit_val a + digit_val b) div 10 = digit_val a"
            "(10 * digit_val a + digit_val b) mod 10 = digit_val b" by auto
  then show ?thesis using assms by (simp add: two_digits_def number_2 digit_char_val)
qed

lemma div_mod_10: "(d::nat) < 10 \<Longrightarrow> (10 * k + d) div 10 = k \<and> (10 * k + d) mod 10 = d"
  by simp

lemma four_digits_number:
  assumes "is_digit a" "is_digit b" "is_digit c" "is_digit d"
  shows "four_digits (number [a, b, c, d]) = [a, b, c, d]"
proof -
  define n where "n = 1000 * digit_val a + 100 * digit_val b + 10 * digit_val c + digit_val d"
  have lt: "digit_val a < 10" "digit_val b < 10" "digit_val c < 10" "digit_val d < 10"
    using assms digit_val_lt by auto
  have n1: "n div 10 = 100 * digit_val a + 10 * digit_val b + digit_val c" "n mod 10 = digit_val d"
    using div_mod_10[OF lt(4), of "100 * digit_val a + 10 * digit_val b + digit_val c"]
    by (simp_all add: n_def distrib_left)
  have n2: "n div 10 div 10 = 10 * digit_val a + digit_val b" "n div 10 mod 10 = digit_val c"
    using div_mod_10[OF lt(3), of "10 * digit_val a + digit_val b"]
    by (simp_all add: n1 distrib_left)
  have n3: "n div 10 div 10 div 10 = digit_val a" "n div 10 div 10 mod 10 = digit_val b"
    using div_mod_10[OF lt(2), of "digit_val a"]
    by (simp_all add: n2)
  have q: "n div 1000 = digit_val a" "n div 100 mod 10 = digit_val b"
          "n div 10 mod 10 = digit_val c" "n mod 10 = digit_val d"
  proof -
    have "n div 1000 = n div 10 div 10 div 10" by (simp add: div_mult2_eq[symmetric])
    then show "n div 1000 = digit_val a" by (simp only: n3)
    have "n div 100 = n div 10 div 10" by (simp add: div_mult2_eq[symmetric])
    then show "n div 100 mod 10 = digit_val b" by (simp only: n3)
    show "n div 10 mod 10 = digit_val c" by (rule n2)
    show "n mod 10 = digit_val d" by (rule n1)
  qed
  have "number [a, b, c, d] = n" by (simp add: number_4 n_def)
  then show ?thesis
    using assms by (simp add: four_digits_def q digit_char_val)
qed

lemma strptime_encoding:
  assumes d: "is_digit c0" "is_digit c1" "is_digit c2" "is_digit c3" "is_digit c4" "is_digit c5"
             "is_digit c6" "is_digit c7" "is_digit c9" "is_digit c10" "is_digit c11" "is_digit c12"
      and v: "valid_datetime \<lparr>year = number [c0, c1, c2, c3], month = number [c4, c5],
                day = number [c6, c7], hour = number [c9, c10], minute = number [c11, c12]\<rparr>"
  shows "strptime [c0, c1, c2, c3, c4, c5, c6, c7, CHR ''T'', c9, c10, c11, c12] ''%Y%m%dT%H%M'' =
           Inr \<lparr>year = number [c0, c1, c2, c3], month = number [c4, c5],
                day = number [c6, c7], hour = number [c9, c10], minute = number [c11, c12]\<rparr>"
proof -
  let ?Y = "CHR ''Y''" and ?m = "CHR ''m''" and ?d = "CHR ''d''" and ?H = "CHR ''H''" and ?M = "CHR ''M''"
  from v have b: "1 \<le> number [c0, c1, c2, c3]" "1 \<le> number [c4, c5]" "number [c4, c5] \<le> 12"
      "1 \<le> number [c6, c7]" "number [c6, c7] \<le> days_in_month (number [c0, c1, c2, c3]) (number [c4, c5])"
      "number [c9, c10] \<le> 23" "number [c11, c12] \<le> 59"
    by (simp_all add: valid_datetime_def valid_date_def)
  have "days_in_month (number [c0, c1, c2, c3]) (number [c4, c5]) \<le> 31"
    by (simp add: days_in_month_def)
  with b(5) have d31: "number [c6, c7] \<le> 31" by linarith
  obtain t5 where g5: "match_group (directive ?M) [c11, c12] = ([c11, c12], []) # t5"
    using group_M[OF d(11,12), of "[]"] b(7) by (auto simp: number_2)
  obtain t4 where g4: "match_group (directive ?H) [c9, c10, c11, c12] = ([c9, c10], [c11, c12]) # t4"
    using group_H[OF d(9,10), of "[c11, c12]"] b(6) by (auto simp: number_2)
  obtain t2 where g2: "match_group (directive ?d) [c6, c7, CHR ''T'', c9, c10, c11, c12] =
      ([c6, c7], [CHR ''T'', c9, c10, c11, c12]) # t2"
    using group_d[OF d(7,8), of "[CHR ''T'', c9, c10, c11, c12]"] b(4) d31 by (auto simp: number_2)
  obtain t1 where g1: "match_group (directive ?m) [c4, c5, c6, c7, CHR ''T'', c9, c10, c11, c12] =
      ([c4, c5], [c6, c7, CHR ''T'', c9, c10, c11, c12]) # t1"
    using group_m[OF d(5,6), of "[c6, c7, CHR ''T'', c9, c10, c11, c12]"] b(2,3) by (auto simp: number_2)
  have g0: "match_group (directive ?Y) [c0, c1, c2, c3, c4, c5, c6, c7, CHR ''T'', c9, c10, c11, c12] =
      [([c0, c1, c2, c3], [c4, c5, c6, c7, CHR ''T'', c9, c10, c11, c12])]"
    using group_Y[OF d(1,2,3,4)] by simp
  have r6: "re_match [] [] = [([], [])]" by simp
  obtain o5 where r5: "re_match [Group ?M (directive ?M)] [c11, c12] = ([(?M, [c11, c12])], []) # o5"
    using re_match_group_hd[OF g5 r6] by blast
  obtain o4 where r4: "re_match [Group ?H (directive ?H), Group ?M (directive ?M)] [c9, c10, c11, c12] =
      ([(?H, [c9, c10]), (?M, [c11, c12])], []) # o4"
    using re_match_group_hd[OF g4 r5] by blast
  have r3: "re_match [Lit (CHR ''T''), Group ?H (directive ?H), Group ?M (directive ?M)]
      [CHR ''T'', c9, c10, c11, c12] = ([(?H, [c9, c10]), (?M, [c11, c12])], []) # o4"
    using r4 by (simp del: directive.simps)
  obtain o2 where r2: "re_match [Group ?d (directive ?d), Lit (CHR ''T''), Group ?H (directive ?H),
      Group ?M (directive ?M)] [c6, c7, CHR ''T'', c9, c10, c11, c12] =
      ([(?d, [c6, c7]), (?H, [c9, c10]), (?M, [c11, c12])], []) # o2"
    using re_match_group_hd[OF g2 r3] by blast
  obtain o1 where r1: "re_match [Group ?m (directive ?m), Group ?d (directive ?d), Lit (CHR ''T''),
      Group ?H (directive ?H), Group ?M (directive ?M)] [c4, c5, c6, c7, CHR ''T'', c9, c10, c11, c12] =
      ([(?m, [c4, c5]), (?d, [c6, c7]), (?H, [c9, c10]), (?M, [c11, c12])], []) # o1"
    using re_match_group_hd[OF g1 r2] by blast
  obtain o0 where r0: "re_match (pattern ''%Y%m%dT%H%M'')
      [c0, c1, c2, c3, c4, c5, c6, c7, CHR ''T'', c9, c10, c11, c12] =
      ([(?Y, [c0, c1, c2, c3]), (?m, [c4, c5]), (?d, [c6, c7]), (?H, [c9, c10]), (?M, [c11, c12])], []) # o0"
    using re_match_group_hd[OF g0 r1] unfolding pattern_format by blast
  have i: "py_int [c0, c1, c2, c3] = Inr (int (number [c0, c1, c2, c3]))"
    "py_int [c4, c5] = Inr (int (number [c4, c5]))"
    "py_int [c6, c7] = Inr (int (number [c6, c7]))"
    "py_int [c9, c10] = Inr (int (number [c9, c10]))"
    "py_int [c11, c12] = Inr (int (number [c11, c12]))"
    using d by (simp_all add: py_int_digits)
  show ?thesis
    unfolding strptime_def r0 using b by (simp add: group_value_def i)
qed

lemma parse_take_13: "13 \<le> length s \<Longrightarrow> parse_meteoblue_datetime s = parse_meteoblue_datetime (take 13 s)"
  by (simp add: parse_eq min_def)

lemma parse_encoding:
  assumes "matches_encoding s"
  shows "parse_meteoblue_datetime s = Inr (Some (decoded s)) \<and> encoding (decoded s) = take 13 s"
proof -
  from assms have len: "13 \<le> length s" by (simp add: matches_encoding_def)
  from length_13[OF len] obtain c0 c1 c2 c3 c4 c5 c6 c7 c8 c9 c10 c11 c12 r
    where s: "s = c0 # c1 # c2 # c3 # c4 # c5 # c6 # c7 # c8 # c9 # c10 # c11 # c12 # r" by blast
  from assms have d: "is_digit c0" "is_digit c1" "is_digit c2" "is_digit c3" "is_digit c4" "is_digit c5"
             "is_digit c6" "is_digit c7" "is_digit c9" "is_digit c10" "is_digit c11" "is_digit c12"
    and t: "c8 = CHR ''T''"
    by (simp_all add: matches_encoding_def s)
  have dec: "decoded s = \<lparr>year = number [c0, c1, c2, c3], month = number [c4, c5],
                day = number [c6, c7], hour = number [c9, c10], minute = number [c11, c12]\<rparr>"
    by (simp add: decoded_def s)
  from assms have v: "valid_datetime \<lparr>year = number [c0, c1, c2, c3], month = number [c4, c5],
                day = number [c6, c7], hour = number [c9, c10], minute = number [c11, c12]\<rparr>"
    unfolding matches_encoding_def dec by simp
  have t8: "take 8 s = [c0, c1, c2, c3, c4, c5, c6, c7]" by (simp add: s)
  have t13: "take 13 s = [c0, c1, c2, c3, c4, c5, c6, c7, CHR ''T'', c9, c10, c11, c12]"
    by (simp add: s t)
  have "py_int (take 8 s) = Inr (int (number (take 8 s)))"
    unfolding t8 using d by (intro py_int_digits) simp_all
  then have p: "\<exists>v. py_int (take 8 s) = Inr v" by blast
  have "parse_meteoblue_datetime s = Inr (Some (decoded s))"
    using len p strptime_encoding[OF d v] unfolding parse_eq t13[symmetric] dec by simp
  moreover have "encoding (decoded s) = take 13 s"
    unfolding dec t13 encoding_def using d by (simp add: two_digits_number four_digits_number)
  ultimately show ?thesis by blast
qed

text \<open>
  C5. For every string of at least 13 characters whose first 13 match the encoding
  (four-digit year, two-digit month, two-digit day, the letter T, two-digit hour,
  two-digit minute) and denote a valid calendar instant, the Timestamp Parser returns
  a present datetime, the one the digits denote; written back in the encoding it gives
  the first 13 characters again, which parse to the same datetime; and the characters
  after the 13th have no effect on the result.
\<close>

theorem parse_meteoblue_datetime_round_trip:
  assumes "matches_encoding s"
  shows "parse_meteoblue_datetime s = Inr (Some (decoded s)) \<and>
         valid_datetime (decoded s) \<and>
         encoding (decoded s) = take 13 s \<and>
         parse_meteoblue_datetime (encoding (decoded s)) = Inr (Some (decoded s)) \<and>
         (\<forall>s'. 13 \<le> length s' \<and> take 13 s' = take 13 s \<longrightarrow>
               parse_meteoblue_datetime s' = parse_meteoblue_datetime s)"
proof -
  from assms have len: "13 \<le> length s" by (simp add: matches_encoding_def)
  note p = parse_encoding[OF assms]
  have "parse_meteoblue_datetime (take 13 s) = Inr (Some (decoded s))"
    using p parse_take_13[OF len] by simp
  moreover have "parse_meteoblue_datetime s' = parse_meteoblue_datetime s"
    if "13 \<le> length s' \<and> take 13 s' = take 13 s" for s'
    using that parse_take_13[OF len] parse_take_13[of s'] by simp
  moreover have "valid_datetime (decoded s)" using assms by (simp add: matches_encoding_def)
  ultimately show ?thesis using p by simp
qed

text \<open>The cell \<^verbatim>\<open>20190523T0900\<close>, as it is and with seconds after it.\<close>

theorem parse_meteoblue_datetime_round_trip_witness:
  "matches_encoding ''20190523T0900'' \<and>
   parse_meteoblue_datetime ''20190523T0900'' =
     Inr (Some \<lparr>year = 2019, month = 5, day = 23, hour = 9, minute = 0\<rparr>) \<and>
   encoding \<lparr>year = 2019, month = 5, day = 23, hour = 9, minute = 0\<rparr> = ''20190523T0900'' \<and>
   parse_meteoblue_datetime ''20190523T090030'' = parse_meteoblue_datetime ''20190523T0900''"
proof -
  have m: "matches_encoding ''20190523T0900''" by code_simp
  have d: "decoded ''20190523T0900'' = \<lparr>year = 2019, month = 5, day = 23, hour = 9, minute = 0\<rparr>"
    by code_simp
  from parse_meteoblue_datetime_round_trip[OF m] show ?thesis
    unfolding d using m by simp
qed

lemma match_alternative_Some:
  "match_alternative a s = Some (m, r) \<Longrightarrow> s = m @ r \<and> list_all2 cmatch a m"
proof (induction a s arbitrary: m rule: match_alternative.induct)
  case (1 s)
  then show ?case by simp
next
  case (2 k ks)
  then show ?case by simp
next
  case (3 k ks c cs)
  then show ?case by (auto split: if_splits option.splits)
qed

lemma match_group_mem:
  assumes "(m, r) \<in> set (match_group alts s)"
  shows "\<exists>a\<in>set alts. s = m @ r \<and> list_all2 cmatch a m"
proof -
  from assms obtain a where "a \<in> set alts" "match_alternative a s = Some (m, r)"
    by (auto simp: match_group_def List.map_filter_def)
  with match_alternative_Some show ?thesis by blast
qed

lemma re_match_Group_mem:
  assumes "(found, rest) \<in> set (re_match (Group g alts # items) s)"
  shows "\<exists>a\<in>set alts. \<exists>m r found'. s = m @ r \<and> list_all2 cmatch a m \<and>
           (found', rest) \<in> set (re_match items r)"
proof -
  from assms obtain m r found' where mr: "(m, r) \<in> set (match_group alts s)"
    and "(found', rest) \<in> set (re_match items r)"
    by auto
  with match_group_mem[OF mr] show ?thesis by blast
qed

lemma re_match_Lit_mem:
  assumes "(found, rest) \<in> set (re_match (Lit c # items) s)"
  shows "\<exists>x xs. s = x # xs \<and> (found, rest) \<in> set (re_match items xs)"
  using assms by (cases s) (auto split: if_splits)

lemma range_is_digit:
  "cmatch (Range (CHR ''0'') (CHR ''1'')) c \<Longrightarrow> is_digit c"
  "cmatch (Range (CHR ''0'') (CHR ''2'')) c \<Longrightarrow> is_digit c"
  "cmatch (Range (CHR ''0'') (CHR ''3'')) c \<Longrightarrow> is_digit c"
  "cmatch (Range (CHR ''0'') (CHR ''5'')) c \<Longrightarrow> is_digit c"
  "cmatch (Range (CHR ''1'') (CHR ''2'')) c \<Longrightarrow> is_digit c"
  "cmatch (Range (CHR ''1'') (CHR ''9'')) c \<Longrightarrow> is_digit c"
  by (auto simp: is_digit_def)

lemma exactly_is_digit:
  assumes "cmatch (Exactly d) c" "is_digit d"
  shows "is_digit c"
proof -
  from assms have "lower_char c = d" by (simp add: is_digit_lower)
  with assms(2) lower_char_is_digit[of c] show ?thesis by simp
qed

lemma digit_literals: "is_digit (CHR ''0'')" "is_digit (CHR ''1'')" "is_digit (CHR ''2'')" "is_digit (CHR ''3'')"
  by (simp_all add: is_digit_def)

lemma exactly_space: "cmatch (Exactly (CHR '' '')) c \<Longrightarrow> c = CHR '' ''"
proof -
  assume "cmatch (Exactly (CHR '' '')) c"
  moreover have "lower_char (CHR '' '') = CHR '' ''" by (simp add: lower_char_def)
  ultimately show ?thesis using lower_char_space by simp
qed

lemma alt_Y:
  assumes "a \<in> set (directive (CHR ''Y''))" "list_all2 cmatch a m"
  shows "length m = 4 \<and> list_all is_digit m"
  using assms by (auto simp: list_all2_Cons1)

lemma alt_m:
  assumes "a \<in> set (directive (CHR ''m''))" "list_all2 cmatch a m"
  shows "1 \<le> length m \<and> length m \<le> 2 \<and> list_all is_digit m"
  using assms exactly_is_digit digit_literals range_is_digit
  by (auto simp add: list_all2_Cons1 simp del: cmatch.simps)

lemma alt_d:
  assumes "a \<in> set (directive (CHR ''d''))" "list_all2 cmatch a m"
  shows "1 \<le> length m \<and> length m \<le> 2 \<and>
         (list_all is_digit m \<or> (\<exists>k. is_digit k \<and> m = [CHR '' '', k]))"
proof -
  from assms(1) consider
      "a = [Exactly (CHR ''3''), Range (CHR ''0'') (CHR ''1'')]"
    | "a = [Range (CHR ''1'') (CHR ''2''), Digit]"
    | "a = [Exactly (CHR ''0''), Range (CHR ''1'') (CHR ''9'')]"
    | "a = [Range (CHR ''1'') (CHR ''9'')]"
    | "a = [Exactly (CHR '' ''), Range (CHR ''1'') (CHR ''9'')]"
    by auto
  then show ?thesis
  proof cases
    case 1
    with assms(2) show ?thesis
      using exactly_is_digit digit_literals range_is_digit
      by (auto simp add: list_all2_Cons1 simp del: cmatch.simps)
  next
    case 2
    with assms(2) show ?thesis
      using range_is_digit
      by (auto simp add: list_all2_Cons1 simp del: cmatch.simps(2) cmatch.simps(3))
  next
    case 3
    with assms(2) show ?thesis
      using exactly_is_digit digit_literals range_is_digit
      by (auto simp add: list_all2_Cons1 simp del: cmatch.simps)
  next
    case 4
    with assms(2) show ?thesis
      using range_is_digit
      by (auto simp add: list_all2_Cons1 simp del: cmatch.simps)
  next
    case 5
    with assms(2) obtain x k where m: "m = [x, k]" and x: "cmatch (Exactly (CHR '' '')) x"
      and k: "cmatch (Range (CHR ''1'') (CHR ''9'')) k"
      by (auto simp add: list_all2_Cons1 simp del: cmatch.simps)
    from exactly_space[OF x] range_is_digit(6)[OF k] m show ?thesis by simp
  qed
qed

lemma alt_H:
  assumes "a \<in> set (directive (CHR ''H''))" "list_all2 cmatch a m"
  shows "1 \<le> length m \<and> length m \<le> 2"
  using assms by (auto simp add: list_all2_Cons1 simp del: cmatch.simps)

lemma alt_M:
  assumes "a \<in> set (directive (CHR ''M''))" "list_all2 cmatch a m"
  shows "1 \<le> length m \<and> length m \<le> 2"
  using assms by (auto simp add: list_all2_Cons1 simp del: cmatch.simps)

lemma strptime_match:
  assumes "strptime s f = Inr dt"
  shows "\<exists>found. (found, []) \<in> set (re_match (pattern f) s)"
proof (cases "re_match (pattern f) s")
  case Nil
  with assms show ?thesis by (simp add: strptime_def)
next
  case (Cons p ps)
  obtain found rest where p: "p = (found, rest)" by (cases p)
  with assms Cons have "rest = []" by (auto simp: strptime_def split: if_splits)
  with Cons p show ?thesis by auto
qed

lemma format_match_shape:
  assumes "(found, []) \<in> set (re_match (pattern ''%Y%m%dT%H%M'') s)"
  shows "\<exists>mY mm md x mH mM. s = mY @ mm @ md @ x # mH @ mM \<and>
           length mY = 4 \<and> list_all is_digit mY \<and>
           1 \<le> length mm \<and> length mm \<le> 2 \<and> list_all is_digit mm \<and>
           1 \<le> length md \<and> length md \<le> 2 \<and>
           (list_all is_digit md \<or> (\<exists>k. is_digit k \<and> md = [CHR '' '', k])) \<and>
           1 \<le> length mH \<and> length mH \<le> 2 \<and> 1 \<le> length mM \<and> length mM \<le> 2"
proof -
  from assms[unfolded pattern_format] re_match_Group_mem
  obtain aY mY r1 f1 where y: "aY \<in> set (directive (CHR ''Y''))" "s = mY @ r1" "list_all2 cmatch aY mY"
    and m1: "(f1, []) \<in> set (re_match [Group (CHR ''m'') (directive (CHR ''m'')),
      Group (CHR ''d'') (directive (CHR ''d'')), Lit (CHR ''T''),
      Group (CHR ''H'') (directive (CHR ''H'')), Group (CHR ''M'') (directive (CHR ''M''))] r1)"
    by meson
  from re_match_Group_mem[OF m1]
  obtain am mm r2 f2 where m: "am \<in> set (directive (CHR ''m''))" "r1 = mm @ r2" "list_all2 cmatch am mm"
    and m2: "(f2, []) \<in> set (re_match [Group (CHR ''d'') (directive (CHR ''d'')), Lit (CHR ''T''),
      Group (CHR ''H'') (directive (CHR ''H'')), Group (CHR ''M'') (directive (CHR ''M''))] r2)"
    by meson
  from re_match_Group_mem[OF m2]
  obtain ad md r3 f3 where d: "ad \<in> set (directive (CHR ''d''))" "r2 = md @ r3" "list_all2 cmatch ad md"
    and m3: "(f3, []) \<in> set (re_match [Lit (CHR ''T''),
      Group (CHR ''H'') (directive (CHR ''H'')), Group (CHR ''M'') (directive (CHR ''M''))] r3)"
    by meson
  from re_match_Lit_mem[OF m3]
  obtain x r4 where t: "r3 = x # r4"
    and m4: "(f3, []) \<in> set (re_match [Group (CHR ''H'') (directive (CHR ''H'')),
      Group (CHR ''M'') (directive (CHR ''M''))] r4)"
    by blast
  from re_match_Group_mem[OF m4]
  obtain aH mH r5 f5 where h: "aH \<in> set (directive (CHR ''H''))" "r4 = mH @ r5" "list_all2 cmatch aH mH"
    and m5: "(f5, []) \<in> set (re_match [Group (CHR ''M'') (directive (CHR ''M''))] r5)"
    by meson
  from re_match_Group_mem[OF m5]
  obtain aM mM r6 f6 where mi: "aM \<in> set (directive (CHR ''M''))" "r5 = mM @ r6" "list_all2 cmatch aM mM"
    and m6: "(f6, []) \<in> set (re_match [] r6)"
    by meson
  from m6 have r6: "r6 = []" by simp
  have s: "s = mY @ mm @ md @ x # mH @ mM"
    using y(2) m(2) d(2) t h(2) mi(2) r6 by simp
  from s alt_Y[OF y(1,3)] alt_m[OF m(1,3)] alt_d[OF d(1,3)] alt_H[OF h(1,3)] alt_M[OF mi(1,3)]
  show ?thesis by blast
qed

lemma strptime_digits:
  assumes "strptime s ''%Y%m%dT%H%M'' = Inr dt" "length s = 13" "py_int (take 8 s) = Inr v"
  shows "list_all is_digit (take 8 s)"
proof -
  from strptime_match[OF assms(1)] format_match_shape
  obtain mY mm md x mH mM where s: "s = mY @ mm @ md @ x # mH @ mM"
    and l: "length mY = 4" "1 \<le> length mm" "length mm \<le> 2" "1 \<le> length md" "length md \<le> 2"
           "1 \<le> length mH" "length mH \<le> 2" "1 \<le> length mM" "length mM \<le> 2"
    and dg: "list_all is_digit mY" "list_all is_digit mm"
    and dd: "list_all is_digit md \<or> (\<exists>k. is_digit k \<and> md = [CHR '' '', k])"
    by meson
  from assms(2) s l have l2: "length mm = 2" "length md = 2" by simp_all
  with l(1) have t8: "take 8 s = mY @ mm @ md" by (simp add: s)
  from dd show ?thesis
  proof
    assume "list_all is_digit md"
    with dg t8 show ?thesis by simp
  next
    assume "\<exists>k. is_digit k \<and> md = [CHR '' '', k]"
    then obtain k where k: "is_digit k" "md = [CHR '' '', k]" by blast
    have "py_int ((mY @ mm) @ CHR '' '' # [k]) = Inl ValueError"
    proof (rule py_int_stop)
      show "mY @ mm \<noteq> []" using l(1) by auto
      show "list_all is_digit (mY @ mm)" using dg by simp
      show "\<not> is_digit (CHR '' '')" by (simp add: is_digit_def)
      show "CHR '' '' \<noteq> CHR ''_''" by simp
      have "int_space (CHR '' '')" by (simp add: int_space_def)
      then show "dropWhile int_space (CHR '' '' # [k]) \<noteq> []"
        using digit_not_space[OF k(1)] by simp
    qed
    with assms(3) t8 k(2) show ?thesis by simp
  qed
qed

text \<open>
  C6. For every string the Timestamp Parser returns, and what it returns is absent
  whenever the string has fewer than 13 characters, or its first 8 characters are not
  all decimal digits, or \<^verbatim>\<open>strptime\<close> on its first 13 characters raises. It never
  raises itself: \<^verbatim>\<open>int\<close> and \<^verbatim>\<open>strptime\<close> raise nothing but \<^verbatim>\<open>ValueError\<close>,
  which is caught.
\<close>

theorem parse_meteoblue_datetime_absent:
  "(length s < 13 \<longrightarrow> parse_meteoblue_datetime s = Inr None) \<and>
   (\<not> list_all is_digit (take 8 s) \<longrightarrow> parse_meteoblue_datetime s = Inr None) \<and>
   (strptime (take 13 s) ''%Y%m%dT%H%M'' = Inl e \<longrightarrow> parse_meteoblue_datetime s = Inr None) \<and>
   (\<exists>r. parse_meteoblue_datetime s = Inr r)"
proof (intro conjI impI)
  show "parse_meteoblue_datetime s = Inr None" if "length s < 13"
    using that by (simp add: parse_eq)
  show "parse_meteoblue_datetime s = Inr None" if "strptime (take 13 s) ''%Y%m%dT%H%M'' = Inl e"
    using that by (simp add: parse_eq)
  show "\<exists>r. parse_meteoblue_datetime s = Inr r" by (rule parse_total)
  show "parse_meteoblue_datetime s = Inr None" if nd: "\<not> list_all is_digit (take 8 s)"
  proof (cases "length s < 13")
    case True
    then show ?thesis by (simp add: parse_eq)
  next
    case False
    then have t: "length (take 13 s) = 13" "take 8 (take 13 s) = take 8 s" by simp_all
    show ?thesis
    proof (cases "strptime (take 13 s) ''%Y%m%dT%H%M''")
      case (Inl a)
      then show ?thesis by (simp add: parse_eq)
    next
      case (Inr dt)
      have "\<not> (\<exists>v. py_int (take 8 s) = Inr v)"
        using strptime_digits[OF Inr t(1)] nd unfolding t(2) by blast
      then show ?thesis by (simp add: parse_eq)
    qed
  qed
qed

text \<open>
  A date of ten characters, a label of 13 characters, a cell whose day is written with
  a space, and the 30th of February.
\<close>

theorem parse_meteoblue_datetime_absent_witness:
  "length ''2019-05-23'' < 13 \<and> parse_meteoblue_datetime ''2019-05-23'' = Inr None \<and>
   \<not> list_all is_digit (take 8 ''precipitation'') \<and>
   parse_meteoblue_datetime ''precipitation'' = Inr None \<and>
   \<not> list_all is_digit (take 8 ''201905 5T0900'') \<and>
   parse_meteoblue_datetime ''201905 5T0900'' = Inr None \<and>
   strptime (take 13 ''20190230T0900'') ''%Y%m%dT%H%M'' = Inl ValueError \<and>
   parse_meteoblue_datetime ''20190230T0900'' = Inr None"
proof -
  have a: "length ''2019-05-23'' < 13" by simp
  have b: "\<not> list_all is_digit (take 8 ''precipitation'')" by code_simp
  have c: "\<not> list_all is_digit (take 8 ''201905 5T0900'')" by code_simp
  have d: "strptime (take 13 ''20190230T0900'') ''%Y%m%dT%H%M'' = Inl ValueError" by code_simp
  from a b c d
    parse_meteoblue_datetime_absent[of "''2019-05-23''"]
    parse_meteoblue_datetime_absent[of "''precipitation''"]
    parse_meteoblue_datetime_absent[of "''201905 5T0900''"]
    parse_meteoblue_datetime_absent[of "''20190230T0900''" ValueError]
  show ?thesis by blast
qed

end
